theory Spec2Isabelle
  imports Complex_Main "HOL-Library.AList" "HOL-Library.Multiset"
begin

section \<open>Strings\<close>

text \<open>
  Python strings are modelled as \<^typ>\<open>string\<close>: a list of characters, \<open>len\<close> is
  \<^const>\<open>length\<close>.  Only code points below 256 are representable.
\<close>

definition newline :: string where
  "newline = [CHR 0x0A]"

text \<open>
  \<^verbatim>\<open>s.split(sep)\<close> for a one-character separator.  The result is never the empty
  list, so the first branch of the \<open>case\<close> is never taken.
\<close>

fun str_split :: "char \<Rightarrow> string \<Rightarrow> string list" where
  "str_split sep [] = [[]]"
| "str_split sep (c # cs) =
     (if c = sep then [] # str_split sep cs
      else (case str_split sep cs of
              [] \<Rightarrow> [[c]]
            | piece # pieces \<Rightarrow> (c # piece) # pieces))"

text \<open>\<^verbatim>\<open>sep.join(xs)\<close>.\<close>

fun join :: "string \<Rightarrow> string list \<Rightarrow> string" where
  "join sep [] = []"
| "join sep [x] = x"
| "join sep (x # y # ys) = x @ sep @ join sep (y # ys)"

text \<open>\<^verbatim>\<open>s.startswith(p)\<close>.\<close>

definition startswith :: "string \<Rightarrow> string \<Rightarrow> bool" where
  "startswith s p = (take (length p) s = p)"

text \<open>
  \<^verbatim>\<open>s.strip()\<close> and \<^verbatim>\<open>s.lower()\<close> on the code points below 256: the white space of
  \<^verbatim>\<open>str.isspace\<close> and the upper-case letters of Latin-1.
\<close>

definition isspace :: "char \<Rightarrow> bool" where
  "isspace c = ((of_char c :: nat) \<in> {9, 10, 11, 12, 13, 28, 29, 30, 31, 32, 133, 160})"

definition strip :: "string \<Rightarrow> string" where
  "strip s = rev (dropWhile isspace (rev (dropWhile isspace s)))"

definition lower_char :: "char \<Rightarrow> char" where
  "lower_char c =
     (let n = (of_char c :: nat)
      in if (65 \<le> n \<and> n \<le> 90) \<or> (192 \<le> n \<and> n \<le> 222 \<and> n \<noteq> 215)
         then char_of (n + 32) else c)"

definition lower :: "string \<Rightarrow> string" where
  "lower s = map lower_char s"

text \<open>\<^verbatim>\<open>p in s\<close> for strings.\<close>

fun str_contains :: "string \<Rightarrow> string \<Rightarrow> bool" where
  "str_contains [] p = (p = [])"
| "str_contains (c # cs) p = (startswith (c # cs) p \<or> str_contains cs p)"

section \<open>The chunker\<close>

text \<open>\<^verbatim>\<open>self.chunk_size = 12000\<close>, set once in \<^verbatim>\<open>__init__\<close>.\<close>

definition chunk_size :: nat where
  "chunk_size = 12000"

text \<open>
  The state of the loop of \<^verbatim>\<open>chunk_code_by_files\<close> is
  \<open>(chunks, current_chunk, current_size)\<close>; \<open>chunk_line\<close> is one iteration of it.
  \<^verbatim>\<open>current_size > self.chunk_size / 2\<close> compares an integer with the exact half of
  the limit, written here without division.
\<close>

type_synonym chunker_state = "string list \<times> string list \<times> nat"

fun chunk_line :: "chunker_state \<Rightarrow> string \<Rightarrow> chunker_state" where
  "chunk_line (chunks, current_chunk, current_size) line =
     (let line_size = length line;
          (chunks1, current_chunk1, current_size1) =
             (if current_size + line_size > chunk_size \<and> current_chunk \<noteq> []
              then (chunks @ [join newline current_chunk], [], 0)
              else (chunks, current_chunk, current_size));
          current_chunk2 = current_chunk1 @ [line];
          current_size2 = current_size1 + line_size
      in if startswith line (replicate 48 CHR ''='') \<and> 2 * current_size2 > chunk_size
         then (chunks1 @ [join newline current_chunk2], [], 0)
         else (chunks1, current_chunk2, current_size2))"

definition chunk_code_by_files :: "string \<Rightarrow> string list" where
  "chunk_code_by_files code_content =
     (let lines = str_split CHR 0x0A code_content;
          (chunks, current_chunk, current_size) = foldl chunk_line ([], [], 0) lines
      in if current_chunk \<noteq> [] then chunks @ [join newline current_chunk] else chunks)"

section \<open>Python values and exceptions\<close>

text \<open>
  What \<^verbatim>\<open>json.loads\<close> returns.  A dict is an association list read with
  \<^const>\<open>map_of\<close>; floats are the finite ones.
\<close>

datatype pyval =
    PNone
  | PBool bool
  | PInt int
  | PFloat real
  | PStr string
  | PList "pyval list"
  | PDict "(string \<times> pyval) list"

datatype exn =
    JSONDecodeError
  | KeyError
  | TypeError
  | AttributeError
  | UnboundLocalError
  | APIError

text \<open>The truth value of a Python value, as \<^verbatim>\<open>if x:\<close> tests it.\<close>

fun truthy :: "pyval \<Rightarrow> bool" where
  "truthy PNone = False"
| "truthy (PBool b) = b"
| "truthy (PInt i) = (i \<noteq> 0)"
| "truthy (PFloat r) = (r \<noteq> 0)"
| "truthy (PStr s) = (s \<noteq> [])"
| "truthy (PList xs) = (xs \<noteq> [])"
| "truthy (PDict d) = (d \<noteq> [])"

text \<open>\<^verbatim>\<open>isinstance(x, bool)\<close>.\<close>

fun is_bool :: "pyval \<Rightarrow> bool" where
  "is_bool (PBool b) = True"
| "is_bool _ = False"

text \<open>\<^verbatim>\<open>d[key]\<close> on a dict held in a variable.\<close>

definition lookup :: "(string \<times> pyval) list \<Rightarrow> string \<Rightarrow> exn + pyval" where
  "lookup d key = (case map_of d key of None \<Rightarrow> Inl KeyError | Some v \<Rightarrow> Inr v)"

text \<open>
  \<^verbatim>\<open>x[key]\<close> with a string key: a dict without the key raises KeyError, and a value
  that is no dict raises TypeError.
\<close>

fun subscript :: "pyval \<Rightarrow> string \<Rightarrow> exn + pyval" where
  "subscript (PDict d) key = lookup d key"
| "subscript _ key = Inl TypeError"

text \<open>\<^verbatim>\<open>x.get(key)\<close>: only a dict has the method.\<close>

fun get :: "pyval \<Rightarrow> string \<Rightarrow> exn + pyval" where
  "get (PDict d) key = Inr (case map_of d key of None \<Rightarrow> PNone | Some v \<Rightarrow> v)"
| "get _ key = Inl AttributeError"

text \<open>\<^verbatim>\<open>x.items()\<close>: only a dict has the method.\<close>

fun items :: "pyval \<Rightarrow> exn + (string \<times> pyval) list" where
  "items (PDict d) = Inr d"
| "items _ = Inl AttributeError"

section \<open>The feature catalog and the running total\<close>

text \<open>The keys of \<^verbatim>\<open>combined_analysis\<close>, in the order of the dict literal.\<close>

definition catalog :: "string list" where
  "catalog =
     [''authentication'', ''realtime_events'', ''storage'', ''caching'',
      ''ai_implementation'', ''database'', ''microservices'', ''monolith'',
      ''api_exposed'', ''message_queues'', ''background_jobs'', ''sensitive_data'',
      ''external_apis'']"

definition required_features :: "string list" where
  "required_features =
     [''authentication'', ''database'', ''caching'', ''storage'', ''microservices'']"

record verdict =
  present :: bool
  details :: "pyval list"

type_synonym combined = "(string \<times> verdict) list"

definition initial_analysis :: combined where
  "initial_analysis = map (\<lambda>feature. (feature, \<lparr>present = False, details = []\<rparr>)) catalog"

section \<open>The collaborators\<close>

text \<open>
  What one classification attempt of lines 165 to 182 yields: the API call raises an
  error of the client (the variable \<^verbatim>\<open>response\<close> is not assigned); or it returns
  and \<^verbatim>\<open>response\<close> is assigned, and then \<^verbatim>\<open>json.loads\<close> of the message content
  raises TypeError (the content is \<^verbatim>\<open>None\<close>), raises JSONDecodeError (the content is
  not JSON), or returns a value.
\<close>

datatype llm_outcome =
    CallRaised
  | NoContent
  | Malformed
  | Loaded pyval

text \<open>
  The functions the analyzer takes from outside: Python's \<^verbatim>\<open>hash\<close> on strings, the
  model behind the API (asked with the number and the text of a chunk), and the
  order in which a \<^verbatim>\<open>set\<close> built from a list of strings is iterated, which Python
  leaves to the implementation.
\<close>

record env =
  py_hash :: "string \<Rightarrow> int"
  llm :: "nat \<Rightarrow> string \<Rightarrow> llm_outcome"
  set_order :: "string list \<Rightarrow> string list"

section \<open>Classification of one chunk\<close>

type_synonym chunk_analysis = "(string \<times> pyval) list"

text \<open>
  \<^verbatim>\<open>{k.strip().lower(): v for k, v in chunk_analysis.items()}\<close>: a key met again
  keeps its place and takes the later value.
\<close>

definition normalize_keys :: "(string \<times> pyval) list \<Rightarrow> chunk_analysis" where
  "normalize_keys kvs = foldl (\<lambda>acc (k, v). AList.update (lower (strip k)) v acc) [] kvs"

definition missing_features :: "chunk_analysis \<Rightarrow> string list" where
  "missing_features chunk_analysis =
     filter (\<lambda>f. map_of chunk_analysis f = None) required_features"

text \<open>
  The loop of lines 199 to 203 over the features still to check, with the flag
  \<^verbatim>\<open>valid\<close>.
\<close>

fun validate_format :: "chunk_analysis \<Rightarrow> string list \<Rightarrow> bool \<Rightarrow> exn + bool" where
  "validate_format chunk_analysis [] valid = Inr valid"
| "validate_format chunk_analysis (feature # features) valid =
     (case lookup chunk_analysis feature of
        Inl e \<Rightarrow> Inl e
      | Inr x \<Rightarrow>
          (case get x ''present'' of
             Inl e \<Rightarrow> Inl e
           | Inr p \<Rightarrow>
               validate_format chunk_analysis features (if \<not> is_bool p then False else valid)))"

text \<open>
  The body of the merge loop (lines 209 to 213) for one feature: the verdict after it
  and the exception it raised, if any.  Line 210 has set the flag when the chunk's
  details are looked up.
\<close>

definition merge_feature :: "chunk_analysis \<Rightarrow> string \<Rightarrow> verdict \<Rightarrow> verdict \<times> exn option" where
  "merge_feature chunk_analysis feature v =
     (case lookup chunk_analysis feature of
        Inl e \<Rightarrow> (v, Some e)
      | Inr x \<Rightarrow>
          (case subscript x ''present'' of
             Inl e \<Rightarrow> (v, Some e)
           | Inr p \<Rightarrow>
               if truthy p then
                 (case subscript x ''details'' of
                    Inl e \<Rightarrow> (v\<lparr>present := True\<rparr>, Some e)
                  | Inr d \<Rightarrow> (v\<lparr>present := True, details := details v @ [d]\<rparr>, None))
               else (v, None)))"

text \<open>The merge loop: it stops at the first exception, keeping what it has merged.\<close>

fun merge_results :: "chunk_analysis \<Rightarrow> combined \<Rightarrow> combined \<times> exn option" where
  "merge_results chunk_analysis [] = ([], None)"
| "merge_results chunk_analysis ((feature, v) # rest) =
     (case merge_feature chunk_analysis feature v of
        (v', Some e) \<Rightarrow> ((feature, v') # rest, Some e)
      | (v', None) \<Rightarrow>
          (case merge_results chunk_analysis rest of
             (rest', raised) \<Rightarrow> ((feature, v') # rest', raised)))"

section \<open>The pipeline driver\<close>

text \<open>
  The state the loop over the chunks changes: the cache of the analyzer, the running
  total, and whether the variable \<^verbatim>\<open>response\<close> has been assigned.
\<close>

record loop_state =
  analysis_cache :: "int \<rightharpoonup> chunk_analysis"
  combined_analysis :: combined
  response_bound :: bool

text \<open>
  The \<^verbatim>\<open>try\<close> block from the API call on (lines 163 to 216): the state after it and
  the exception raised in it, if any.  The two \<^verbatim>\<open>continue\<close> of the validation
  leave it without an exception.
\<close>

definition classify_and_merge ::
  "env \<Rightarrow> loop_state \<Rightarrow> nat \<Rightarrow> string \<Rightarrow> int \<Rightarrow> loop_state \<times> exn option" where
  "classify_and_merge env st chunk_num chunk cache_key =
     (case llm env chunk_num chunk of
        CallRaised \<Rightarrow> (st, Some APIError)
      | NoContent \<Rightarrow> (st\<lparr>response_bound := True\<rparr>, Some TypeError)
      | Malformed \<Rightarrow> (st\<lparr>response_bound := True\<rparr>, Some JSONDecodeError)
      | Loaded loaded \<Rightarrow>
          (let st1 = st\<lparr>response_bound := True\<rparr> in
           case items loaded of
             Inl e \<Rightarrow> (st1, Some e)
           | Inr kvs \<Rightarrow>
               (let chunk_analysis = normalize_keys kvs in
                if missing_features chunk_analysis \<noteq> [] then (st1, None)
                else
                  (case validate_format chunk_analysis required_features True of
                     Inl e \<Rightarrow> (st1, Some e)
                   | Inr valid \<Rightarrow>
                       if \<not> valid then (st1, None)
                       else
                         (case merge_results chunk_analysis (combined_analysis st1) of
                            (merged, Some e) \<Rightarrow> (st1\<lparr>combined_analysis := merged\<rparr>, Some e)
                          | (merged, None) \<Rightarrow>
                              (st1\<lparr>combined_analysis := merged,
                                   analysis_cache :=
                                     (analysis_cache st1)(cache_key \<mapsto> chunk_analysis)\<rparr>,
                               None))))))"

text \<open>
  The \<^verbatim>\<open>except\<close> clauses (lines 218 to 227).  The last one prints
  \<^verbatim>\<open>vars(response)\<close>, which raises UnboundLocalError when no API call has returned
  yet; an exception raised in a handler leaves the loop.
\<close>

fun except_clauses :: "exn \<Rightarrow> loop_state \<Rightarrow> loop_state \<times> exn option" where
  "except_clauses JSONDecodeError st = (st, None)"
| "except_clauses KeyError st = (st, None)"
| "except_clauses e st = (if response_bound st then (st, None) else (st, Some UnboundLocalError))"

text \<open>One iteration of the loop over the chunks (lines 146 to 227).\<close>

definition process_chunk :: "env \<Rightarrow> loop_state \<Rightarrow> nat \<times> string \<Rightarrow> loop_state \<times> exn option" where
  "process_chunk env st numbered =
     (case numbered of (chunk_num, chunk) \<Rightarrow>
        (let cache_key = py_hash env chunk in
         if analysis_cache st cache_key \<noteq> None then (st, None)
         else if length (strip chunk) < 100 then (st, None)
         else
           (case classify_and_merge env st chunk_num chunk cache_key of
              (st', None) \<Rightarrow> (st', None)
            | (st', Some e) \<Rightarrow> except_clauses e st')))"

fun run_chunks :: "env \<Rightarrow> loop_state \<Rightarrow> (nat \<times> string) list \<Rightarrow> loop_state \<times> exn option" where
  "run_chunks env st [] = (st, None)"
| "run_chunks env st (numbered # rest) =
     (case process_chunk env st numbered of
        (st', Some e) \<Rightarrow> (st', Some e)
      | (st', None) \<Rightarrow> run_chunks env st' rest)"

text \<open>
  The clean-up of the details (lines 231 to 237).  \<^verbatim>\<open>set(details)\<close> raises TypeError
  on a list or a dict, and \<^verbatim>\<open>"\n".join\<close> raises it on anything but strings.
\<close>

fun strings_of :: "pyval list \<Rightarrow> string list option" where
  "strings_of [] = Some []"
| "strings_of (PStr s # vs) = map_option ((#) s) (strings_of vs)"
| "strings_of (_ # vs) = None"

definition clean_details :: "env \<Rightarrow> pyval list \<Rightarrow> exn + string" where
  "clean_details env ds =
     (if ds \<noteq> [] then
        (case strings_of ds of
           None \<Rightarrow> Inl TypeError
         | Some ss \<Rightarrow> Inr (join newline (set_order env ss)))
      else Inr ''Not found'')"

text \<open>A feature of the returned map: its \<^verbatim>\<open>present\<close> and its \<^verbatim>\<open>details\<close>.\<close>

type_synonym feature_map = "(string \<times> bool \<times> string) list"

fun clean_up :: "env \<Rightarrow> combined \<Rightarrow> exn + feature_map" where
  "clean_up env [] = Inr []"
| "clean_up env ((feature, v) # rest) =
     (case clean_details env (details v) of
        Inl e \<Rightarrow> Inl e
      | Inr d \<Rightarrow>
          (case clean_up env rest of
             Inl e \<Rightarrow> Inl e
           | Inr rest' \<Rightarrow> Inr ((feature, present v, d) # rest')))"

text \<open>
  \<^verbatim>\<open>analyze_with_llm\<close> on an analyzer whose cache is \<open>cache\<close>: what it returns or
  raises, and the cache it leaves.
\<close>

definition analyze_with_llm ::
  "env \<Rightarrow> (int \<rightharpoonup> chunk_analysis) \<Rightarrow> string \<Rightarrow> (exn + feature_map) \<times> (int \<rightharpoonup> chunk_analysis)" where
  "analyze_with_llm env cache code_content =
     (let code_chunks = chunk_code_by_files code_content;
          st0 = \<lparr>analysis_cache = cache, combined_analysis = initial_analysis,
                 response_bound = False\<rparr>
      in case run_chunks env st0 (enumerate 1 code_chunks) of
           (st, Some e) \<Rightarrow> (Inl e, analysis_cache st)
         | (st, None) \<Rightarrow> (clean_up env (combined_analysis st), analysis_cache st))"

text \<open>The pipeline with the result cache removed: every lookup misses and nothing is kept.\<close>

definition process_chunk_uncached ::
  "env \<Rightarrow> loop_state \<Rightarrow> nat \<times> string \<Rightarrow> loop_state \<times> exn option" where
  "process_chunk_uncached env st numbered =
     (case process_chunk env (st\<lparr>analysis_cache := Map.empty\<rparr>) numbered of
        (st', raised) \<Rightarrow> (st'\<lparr>analysis_cache := Map.empty\<rparr>, raised))"

fun run_chunks_uncached ::
  "env \<Rightarrow> loop_state \<Rightarrow> (nat \<times> string) list \<Rightarrow> loop_state \<times> exn option" where
  "run_chunks_uncached env st [] = (st, None)"
| "run_chunks_uncached env st (numbered # rest) =
     (case process_chunk_uncached env st numbered of
        (st', Some e) \<Rightarrow> (st', Some e)
      | (st', None) \<Rightarrow> run_chunks_uncached env st' rest)"

definition analyze_with_llm_uncached :: "env \<Rightarrow> string \<Rightarrow> exn + feature_map" where
  "analyze_with_llm_uncached env code_content =
     (let code_chunks = chunk_code_by_files code_content;
          st0 = \<lparr>analysis_cache = Map.empty, combined_analysis = initial_analysis,
                 response_bound = False\<rparr>
      in case run_chunks_uncached env st0 (enumerate 1 code_chunks) of
           (st, Some e) \<Rightarrow> Inl e
         | (st, None) \<Rightarrow> clean_up env (combined_analysis st))"

section \<open>The project analysis\<close>

definition directory_features :: "(string \<times> string list) list" where
  "directory_features =
     [(''already_deployed'',
         [''docker-compose.yml'', ''kubernetes'', ''deploy.sh'', ''.env.production'']),
      (''has_frontend'', [''src/frontend'', ''public'', ''index.html'', ''components'', ''pages'']),
      (''has_cicd'', [''.github/workflows'', ''jenkins'', ''gitlab-ci.yml'', ''.travis.yml'']),
      (''multiple_environments'', [''.env.'', ''config/environments'']),
      (''uses_containerization'', [''dockerfile'', ''docker-compose'', ''kubernetes'']),
      (''uses_iac'', [''terraform'', ''cloudformation'', ''pulumi'', ''ansible'']),
      (''high_availability'', [''kubernetes'', ''docker-swarm'', ''load-balancer''])]"

definition analyze_directory_structure :: "string \<Rightarrow> (string \<times> bool) list" where
  "analyze_directory_structure directory_content =
     (let lowered = lower directory_content
      in map (\<lambda>(feature, patterns).
                (feature, list_ex (\<lambda>pattern. str_contains lowered (lower pattern)) patterns))
           directory_features)"

text \<open>
  \<^verbatim>\<open>self.features\<close>: \<^verbatim>\<open>__init__\<close> assigns \<^verbatim>\<open>directory_features\<close> and
  \<^verbatim>\<open>llm_features\<close> and no attribute of that name, and nothing else in the class
  does; reading it raises AttributeError.
\<close>

definition self_features :: "exn + string list" where
  "self_features = Inl AttributeError"

text \<open>The values under the three keys of the dict \<^verbatim>\<open>analyze_project\<close> builds.\<close>

datatype project_value =
    DirectoryAnalysis "(string \<times> bool) list"
  | LlmAnalysis feature_map
  | CombinedAnalysis "(string \<times> bool \<times> bool \<times> (bool \<times> string) option) list"

definition combine_feature ::
  "(string \<times> bool) list \<Rightarrow> feature_map \<Rightarrow> string \<Rightarrow> string \<times> bool \<times> bool \<times> (bool \<times> string) option" where
  "combine_feature dir_features llm_analysis feature =
     (let dir_result = (case map_of dir_features feature of None \<Rightarrow> False | Some b \<Rightarrow> b);
          llm_result = (case map_of llm_analysis feature of None \<Rightarrow> False | Some (p, d) \<Rightarrow> p)
      in (feature, dir_result \<or> llm_result, dir_result, map_of llm_analysis feature))"

definition analyze_project ::
  "env \<Rightarrow> (int \<rightharpoonup> chunk_analysis) \<Rightarrow> string \<Rightarrow> string \<Rightarrow>
     (exn + (string \<times> project_value) list) \<times> (int \<rightharpoonup> chunk_analysis)" where
  "analyze_project env cache directory_content code_content =
     (let dir_features = analyze_directory_structure directory_content
      in case analyze_with_llm env cache code_content of
           (Inl e, cache') \<Rightarrow> (Inl e, cache')
         | (Inr llm_analysis, cache') \<Rightarrow>
             (case self_features of
                Inl e \<Rightarrow> (Inl e, cache')
              | Inr features \<Rightarrow>
                  (Inr [(''directory_analysis'', DirectoryAnalysis dir_features),
                        (''llm_analysis'', LlmAnalysis llm_analysis),
                        (''combined_analysis'',
                           CombinedAnalysis
                             (map (combine_feature dir_features llm_analysis) features))],
                   cache')))"

section \<open>Notions used to state the properties\<close>

text \<open>
  What a chunker state stands for: the text emitted so far, were the open chunk closed
  now.
\<close>

definition emitted :: "chunker_state \<Rightarrow> string list" where
  "emitted st =
     (case st of (chunks, current_chunk, current_size) \<Rightarrow>
        if current_chunk \<noteq> [] then chunks @ [join newline current_chunk] else chunks)"

text \<open>The characters of a chunk that are not the separators joining its lines.\<close>

definition content_length :: "string \<Rightarrow> nat" where
  "content_length chunk = length (filter (\<lambda>c. c \<noteq> CHR 0x0A) chunk)"

text \<open>A chunk result passes the validation of lines 189 to 205.\<close>

definition validated :: "chunk_analysis \<Rightarrow> bool" where
  "validated chunk_analysis =
     (missing_features chunk_analysis = [] \<and>
      validate_format chunk_analysis required_features True = Inr True)"

text \<open>The merge loop raises at the feature (whatever the running total holds).\<close>

definition raises :: "chunk_analysis \<Rightarrow> string \<Rightarrow> bool" where
  "raises chunk_analysis feature =
     (snd (merge_feature chunk_analysis feature \<lparr>present = False, details = []\<rparr>) \<noteq> None)"

definition mergeable :: "chunk_analysis \<Rightarrow> bool" where
  "mergeable chunk_analysis = list_all (\<lambda>feature. \<not> raises chunk_analysis feature) catalog"

text \<open>The chunk result reports the feature present, and the evidence it gives.\<close>

definition reports :: "chunk_analysis \<Rightarrow> string \<Rightarrow> bool" where
  "reports chunk_analysis feature =
     (case lookup chunk_analysis feature of
        Inl e \<Rightarrow> False
      | Inr x \<Rightarrow> (case subscript x ''present'' of Inl e \<Rightarrow> False | Inr p \<Rightarrow> truthy p))"

definition evidence :: "chunk_analysis \<Rightarrow> string \<Rightarrow> pyval option" where
  "evidence chunk_analysis feature =
     (case lookup chunk_analysis feature of
        Inl e \<Rightarrow> None
      | Inr x \<Rightarrow> (case subscript x ''details'' of Inl e \<Rightarrow> None | Inr d \<Rightarrow> Some d))"

text \<open>
  The chunk results a run has merged completely: the ones line 216 has put into the
  cache, which held \<open>cache\<close> before the run and holds \<open>cache'\<close> after it.
\<close>

definition contributed ::
  "(int \<rightharpoonup> chunk_analysis) \<Rightarrow> (int \<rightharpoonup> chunk_analysis) \<Rightarrow> chunk_analysis set" where
  "contributed cache cache' = {ca. \<exists>k. cache k = None \<and> cache' k = Some ca}"

text \<open>The classification of a chunk fails before the merge begins, with a response at hand.\<close>

fun fails_before_merge :: "llm_outcome \<Rightarrow> bool" where
  "fails_before_merge CallRaised = False"
| "fails_before_merge NoContent = True"
| "fails_before_merge Malformed = True"
| "fails_before_merge (Loaded (PDict kvs)) = (\<not> validated (normalize_keys kvs))"
| "fails_before_merge (Loaded _) = True"

text \<open>Merging chunk results one after the other, as the driver does with the validated ones.\<close>

definition merge_all :: "chunk_analysis list \<Rightarrow> combined \<Rightarrow> combined" where
  "merge_all results running =
     fold (\<lambda>chunk_analysis acc. fst (merge_results chunk_analysis acc)) results running"

definition flags :: "combined \<Rightarrow> (string \<times> bool) list" where
  "flags running = map (\<lambda>(feature, v). (feature, present v)) running"

text \<open>
  The invariant of the chunk loop over a text whose lines are \<open>L\<close>: a closed chunk is
  within the limit or is one line, the counter is the total length of the open lines,
  and the open chunk is within the limit or holds one line.
\<close>

definition chunker_inv :: "string set \<Rightarrow> chunker_state \<Rightarrow> bool" where
  "chunker_inv L st =
     (case st of (chunks, current_chunk, current_size) \<Rightarrow>
        (\<forall>c \<in> set chunks. content_length c \<le> chunk_size \<or> c \<in> L) \<and>
        current_size = sum_list (map length current_chunk) \<and>
        (\<forall>l \<in> set current_chunk. CHR 0x0A \<notin> set l \<and> l \<in> L) \<and>
        (current_size \<le> chunk_size \<or> length current_chunk \<le> 1))"

text \<open>
  For the features in the order of the running total, whether merging the chunk result
  sets the flag: the loop stops at the first feature where it raises.
\<close>

fun merged_upto :: "chunk_analysis \<Rightarrow> string list \<Rightarrow> bool list" where
  "merged_upto chunk_analysis [] = []"
| "merged_upto chunk_analysis (feature # features) =
     reports chunk_analysis feature #
     (if raises chunk_analysis feature then map (\<lambda>f. False) features
      else merged_upto chunk_analysis features)"

text \<open>Setting the flags of a list of features where a mask says so.\<close>

definition set_flags :: "bool list \<Rightarrow> (string \<times> bool) list \<Rightarrow> (string \<times> bool) list" where
  "set_flags ms fl = map2 (\<lambda>(feature, b) m. (feature, b \<or> m)) fl ms"

text \<open>The loop state at the start of a run of a fresh analyzer.\<close>

definition fresh_state :: loop_state where
  "fresh_state =
     \<lparr>analysis_cache = Map.empty, combined_analysis = initial_analysis, response_bound = False\<rparr>"

text \<open>The chunk result with the \<^verbatim>\<open>present\<close> of a feature replaced by the boolean true.\<close>

definition with_present_true :: "chunk_analysis \<Rightarrow> string \<Rightarrow> chunk_analysis" where
  "with_present_true chunk_analysis feature =
     (case map_of chunk_analysis feature of
        Some (PDict d) \<Rightarrow>
          AList.update feature (PDict (AList.update ''present'' (PBool True) d)) chunk_analysis
      | _ \<Rightarrow> chunk_analysis)"

text \<open>
  The invariant of the loop over the chunks, for a run that began with the cache
  \<open>cache\<close>: the running total has the features of the catalog, the entries of
  \<open>cache\<close> are still there, a flag is set when a contributed chunk result reports
  the feature, and the details are the evidence of those chunk results.
\<close>

definition total_inv :: "(int \<rightharpoonup> chunk_analysis) \<Rightarrow> loop_state \<Rightarrow> bool" where
  "total_inv cache st =
     (map fst (combined_analysis st) = catalog \<and>
      (\<forall>k. cache k \<noteq> None \<longrightarrow> analysis_cache st k = cache k) \<and>
      (\<forall>(feature, v) \<in> set (combined_analysis st).
         (present v \<longleftrightarrow>
            (\<exists>ca \<in> contributed cache (analysis_cache st). reports ca feature)) \<and>
         set (details v) =
            {d. \<exists>ca \<in> contributed cache (analysis_cache st).
                  reports ca feature \<and> evidence ca feature = Some d}))"

section \<open>Example inputs\<close>

definition absent :: pyval where
  "absent = PDict [(''present'', PBool False), (''details'', PStr []), (''improvements'', PStr [])]"

definition jwt :: pyval where
  "jwt = PDict [(''present'', PBool True), (''details'', PStr ''JWT found''),
                (''improvements'', PStr [])]"

text \<open>A response in the format the prompt asks for.\<close>

definition full_analysis :: chunk_analysis where
  "full_analysis =
     [(''authentication'', jwt), (''realtime_events'', absent), (''storage'', absent),
      (''caching'', absent), (''ai_implementation'', absent), (''database'', absent),
      (''microservices'', absent), (''monolith'', absent), (''api_exposed'', absent),
      (''message_queues'', absent), (''background_jobs'', absent),
      (''sensitive_data'', absent), (''external_apis'', absent)]"

text \<open>A response with the five required features only.\<close>

definition required_only :: chunk_analysis where
  "required_only =
     [(''authentication'', jwt), (''database'', absent), (''caching'', absent),
      (''storage'', absent), (''microservices'', absent)]"

text \<open>
  A response without \<^verbatim>\<open>realtime_events\<close> whose \<^verbatim>\<open>monolith\<close> has a string for
  \<^verbatim>\<open>present\<close>.
\<close>

definition truthy_monolith :: chunk_analysis where
  "truthy_monolith =
     [(''authentication'', absent), (''database'', absent), (''caching'', absent),
      (''storage'', absent), (''microservices'', absent),
      (''monolith'', PDict [(''present'', PStr ''yes''), (''details'', PStr ''one app'')])]"

text \<open>A response with every feature whose \<^verbatim>\<open>monolith\<close> has a string for \<^verbatim>\<open>present\<close>.\<close>

definition truthy_full :: chunk_analysis where
  "truthy_full =
     [(''authentication'', absent), (''realtime_events'', absent), (''storage'', absent),
      (''caching'', absent), (''ai_implementation'', absent), (''database'', absent),
      (''microservices'', absent),
      (''monolith'', PDict [(''present'', PStr ''yes''), (''details'', PStr ''one app'')]),
      (''api_exposed'', absent), (''message_queues'', absent), (''background_jobs'', absent),
      (''sensitive_data'', absent), (''external_apis'', absent)]"

text \<open>The running total with the evidence of \<open>jwt\<close> merged, and the map returned for it.\<close>

definition jwt_merged :: combined where
  "jwt_merged =
     (''authentication'', \<lparr>present = True, details = [PStr ''JWT found'']\<rparr>) #
     map (\<lambda>feature. (feature, \<lparr>present = False, details = []\<rparr>)) (tl catalog)"

definition jwt_found :: feature_map where
  "jwt_found =
     (''authentication'', True, ''JWT found'') #
     map (\<lambda>feature. (feature, False, ''Not found'')) (tl catalog)"

definition nothing_found :: feature_map where
  "nothing_found = map (\<lambda>feature. (feature, False, ''Not found'')) catalog"

definition code_text :: string where
  "code_text = replicate 100 CHR ''x''"

definition env_of :: "llm_outcome \<Rightarrow> env" where
  "env_of outcome =
     \<lparr>py_hash = (\<lambda>s. int (length s)), llm = (\<lambda>chunk_num chunk. outcome), set_order = remdups\<rparr>"

section \<open>Splitting and joining\<close>

lemma str_split_not_Nil: "str_split sep s \<noteq> []"
  by (induction s) (auto split: list.splits)

lemma join_snoc:
  "join sep (xs @ [y]) = (if xs = [] then y else join sep xs @ sep @ y)"
  by (induction sep xs rule: join.induct) auto

lemma join_append:
  "xs \<noteq> [] \<Longrightarrow> ys \<noteq> [] \<Longrightarrow>
     join sep (xs @ ys) = join sep xs @ sep @ join sep ys"
  by (induction sep xs rule: join.induct) (auto simp: neq_Nil_conv)

lemma join_Cons:
  "join sep (x # xs) = (if xs = [] then x else x @ sep @ join sep xs)"
  by (cases xs) auto

lemma join_str_split: "join [sep] (str_split sep s) = s"
proof (induction s)
  case Nil
  show ?case by simp
next
  case (Cons c cs)
  obtain l ls where split: "str_split sep cs = l # ls"
    using str_split_not_Nil [of sep cs] by (cases "str_split sep cs") auto
  with Cons show ?case
    by (auto simp: join_Cons split: if_splits)
qed

section \<open>Lossless chunking\<close>

lemma emitted_chunk_line:
  "emitted (chunk_line st line) \<noteq> [] \<and>
   join newline (emitted (chunk_line st line)) =
     (if emitted st = [] then line else join newline (emitted st) @ newline @ line)"
proof -
  obtain chunks cur sz where st: "st = (chunks, cur, sz)"
    by (cases st) auto
  show ?thesis
    unfolding st
    by (cases "cur = []"; cases "chunks = []")
       (auto simp: emitted_def Let_def join_snoc join_append [of _ "[_, _]"])
qed

lemma emitted_foldl:
  "join newline (emitted (foldl chunk_line st (l # ls))) =
     (if emitted st = [] then join newline (l # ls)
      else join newline (emitted st) @ newline @ join newline (l # ls))"
proof (induction ls arbitrary: st l)
  case Nil
  show ?case using emitted_chunk_line [of st l] by simp
next
  case (Cons a ls)
  have "foldl chunk_line st (l # a # ls) = foldl chunk_line (chunk_line st l) (a # ls)"
    by simp
  then show ?case
    using Cons [of "chunk_line st l" a] emitted_chunk_line [of st l]
    by (simp del: foldl_Cons chunk_line.simps)
qed

text \<open>
  C4: joining the chunks of any text with the newline separator, in the order they
  were emitted, gives the text back.
\<close>

theorem chunk_code_by_files_lossless:
  "join newline (chunk_code_by_files code_content) = code_content"
proof -
  obtain l ls where lines: "str_split CHR 0x0A code_content = l # ls"
    using str_split_not_Nil [of "CHR 0x0A" code_content]
    by (cases "str_split CHR 0x0A code_content") auto
  have "chunk_code_by_files code_content = emitted (foldl chunk_line ([], [], 0) (l # ls))"
    by (simp add: chunk_code_by_files_def emitted_def lines Let_def split: prod.splits)
  then have "join newline (chunk_code_by_files code_content) = join newline (l # ls)"
    using emitted_foldl [of "([], [], 0)" l ls] by (simp add: emitted_def)
  also have "\<dots> = code_content"
    using join_str_split [of "CHR 0x0A" code_content] by (simp add: lines newline_def)
  finally show ?thesis .
qed

section \<open>Bounded chunks\<close>

lemma str_split_no_sep: "l \<in> set (str_split sep s) \<Longrightarrow> sep \<notin> set l"
proof (induction s arbitrary: l)
  case Nil
  then show ?case by simp
next
  case (Cons c cs)
  then show ?case
    by (cases "str_split sep cs") (auto split: if_splits)
qed

lemma content_length_join:
  "\<forall>l \<in> set ls. CHR 0x0A \<notin> set l \<Longrightarrow>
     content_length (join newline ls) = sum_list (map length ls)"
proof (induction newline ls rule: join.induct)
  case 1
  show ?case by (simp add: content_length_def)
next
  case (2 x)
  then have "filter (\<lambda>c. c \<noteq> CHR 0x0A) x = x"
    by (auto intro: filter_True)
  then show ?case by (simp add: content_length_def)
next
  case (3 x y ys)
  then have "filter (\<lambda>c. c \<noteq> CHR 0x0A) x = x"
    by (auto intro: filter_True)
  with 3 show ?case by (simp add: content_length_def newline_def)
qed

lemma closed_chunk_ok:
  assumes "\<forall>l \<in> set cur. CHR 0x0A \<notin> set l \<and> l \<in> L"
    and "sum_list (map length cur) \<le> chunk_size \<or> length cur \<le> 1"
    and "cur \<noteq> []"
  shows "content_length (join newline cur) \<le> chunk_size \<or> join newline cur \<in> L"
proof (cases "sum_list (map length cur) \<le> chunk_size")
  case True
  then show ?thesis using assms(1) by (simp add: content_length_join)
next
  case False
  with assms obtain l where "cur = [l]"
    by (cases cur) auto
  with assms(1) show ?thesis by simp
qed

lemma chunker_inv_step:
  assumes "chunker_inv L st" "line \<in> L" "CHR 0x0A \<notin> set line"
  shows "chunker_inv L (chunk_line st line)"
proof -
  obtain chunks cur sz where st: "st = (chunks, cur, sz)"
    by (cases st) auto
  from assms(1) have inv:
    "\<forall>c \<in> set chunks. content_length c \<le> chunk_size \<or> c \<in> L"
    "sz = sum_list (map length cur)"
    "\<forall>l \<in> set cur. CHR 0x0A \<notin> set l \<and> l \<in> L"
    "sz \<le> chunk_size \<or> length cur \<le> 1"
    by (auto simp: chunker_inv_def st)
  define flush where "flush = (sz + length line > chunk_size \<and> cur \<noteq> [])"
  define chunks1 where "chunks1 = (if flush then chunks @ [join newline cur] else chunks)"
  define cur2 where "cur2 = (if flush then [] else cur) @ [line]"
  define sz2 where "sz2 = (if flush then 0 else sz) + length line"
  have old: "flush \<Longrightarrow> content_length (join newline cur) \<le> chunk_size \<or> join newline cur \<in> L"
    using closed_chunk_ok [of cur L] inv by (auto simp: flush_def)
  have c1: "\<forall>c \<in> set chunks1. content_length c \<le> chunk_size \<or> c \<in> L"
    using inv(1) old by (auto simp: chunks1_def)
  have s2: "sz2 = sum_list (map length cur2)"
    using inv(2) by (simp add: sz2_def cur2_def)
  have l2: "\<forall>l \<in> set cur2. CHR 0x0A \<notin> set l \<and> l \<in> L"
    using inv(3) assms(2,3) by (auto simp: cur2_def)
  have b2: "sz2 \<le> chunk_size \<or> length cur2 \<le> 1"
    using inv(2) by (cases "cur = []") (auto simp: sz2_def cur2_def flush_def)
  have new: "content_length (join newline cur2) \<le> chunk_size \<or> join newline cur2 \<in> L"
    using closed_chunk_ok [of cur2 L] l2 b2 s2 by (auto simp: cur2_def)
  have step: "chunk_line st line =
      (if startswith line (replicate 48 CHR ''='') \<and> 2 * sz2 > chunk_size
       then (chunks1 @ [join newline cur2], [], 0) else (chunks1, cur2, sz2))"
    by (simp add: st flush_def chunks1_def cur2_def sz2_def Let_def)
  show ?thesis
    unfolding step using c1 s2 l2 b2 new by (auto simp: chunker_inv_def)
qed

lemma chunker_inv_foldl:
  "chunker_inv L st \<Longrightarrow> \<forall>l \<in> set ls. l \<in> L \<and> CHR 0x0A \<notin> set l \<Longrightarrow>
     chunker_inv L (foldl chunk_line st ls)"
proof (induction ls arbitrary: st)
  case Nil
  then show ?case by simp
next
  case (Cons a ls)
  then have "chunker_inv L (chunk_line st a)"
    using chunker_inv_step [of L st a] by simp
  with Cons show ?case by (simp del: chunk_line.simps)
qed

lemma chunk_ok:
  assumes "chunk \<in> set (chunk_code_by_files code_content)"
  shows "content_length chunk \<le> chunk_size \<or> chunk \<in> set (str_split CHR 0x0A code_content)"
proof -
  let ?L = "set (str_split CHR 0x0A code_content)"
  obtain chunks cur sz where
    run: "foldl chunk_line ([], [], 0) (str_split CHR 0x0A code_content) = (chunks, cur, sz)"
    by (cases "foldl chunk_line ([], [], 0) (str_split CHR 0x0A code_content)") auto
  have "chunker_inv ?L ([], [], 0)"
    by (simp add: chunker_inv_def)
  then have "chunker_inv ?L (chunks, cur, sz)"
    using chunker_inv_foldl [of ?L "([], [], 0)" "str_split CHR 0x0A code_content"]
      str_split_no_sep [of _ "CHR 0x0A" code_content]
    by (auto simp: run)
  then have inv: "\<forall>c \<in> set chunks. content_length c \<le> chunk_size \<or> c \<in> ?L"
    "\<forall>l \<in> set cur. CHR 0x0A \<notin> set l \<and> l \<in> ?L"
    "sum_list (map length cur) \<le> chunk_size \<or> length cur \<le> 1"
    by (auto simp: chunker_inv_def)
  have last: "cur \<noteq> [] \<Longrightarrow> content_length (join newline cur) \<le> chunk_size \<or> join newline cur \<in> ?L"
    using closed_chunk_ok [of cur ?L] inv(2,3) by blast
  from assms have "chunk \<in> set chunks \<or> (cur \<noteq> [] \<and> chunk = join newline cur)"
    by (auto simp: chunk_code_by_files_def run split: if_splits)
  then show ?thesis using inv(1) last by auto
qed

text \<open>
  C5, amended: for every text, every chunk has at most the chunk size limit plus the
  length of one line of the text in characters other than the newlines that join its
  lines.
\<close>

theorem chunk_content_bounded:
  "\<forall>chunk \<in> set (chunk_code_by_files code_content).
     \<exists>line \<in> set (str_split CHR 0x0A code_content).
       content_length chunk \<le> chunk_size + length line"
proof
  fix chunk
  assume "chunk \<in> set (chunk_code_by_files code_content)"
  then consider "content_length chunk \<le> chunk_size"
    | "chunk \<in> set (str_split CHR 0x0A code_content)"
    using chunk_ok by blast
  then show "\<exists>line \<in> set (str_split CHR 0x0A code_content).
       content_length chunk \<le> chunk_size + length line"
  proof cases
    case 1
    obtain l ls where "str_split CHR 0x0A code_content = l # ls"
      using str_split_not_Nil [of "CHR 0x0A" code_content]
      by (cases "str_split CHR 0x0A code_content") auto
    with 1 show ?thesis by auto
  next
    case 2
    have "content_length chunk \<le> length chunk"
      by (simp add: content_length_def)
    with 2 show ?thesis by (intro bexI [of _ chunk]) auto
  qed
qed

theorem chunk_content_bounded_witness:
  "chunk_code_by_files ''ab'' = [''ab''] \<and>
   (\<exists>line \<in> set (str_split CHR 0x0A ''ab''). content_length ''ab'' \<le> chunk_size + length line)"
proof -
  have chunks: "chunk_code_by_files ''ab'' = [''ab'']"
    by code_simp
  then have "''ab'' \<in> set (chunk_code_by_files ''ab'')"
    by simp
  with chunk_content_bounded [of "''ab''"] chunks show ?thesis
    by blast
qed

lemma str_split_replicate: "str_split sep (replicate n sep) = replicate (Suc n) []"
  by (induction n) auto

lemma foldl_chunk_line_empty:
  "foldl chunk_line (chunks, cur, 0) (replicate n []) = (chunks, cur @ replicate n [], 0)"
proof (induction n arbitrary: cur)
  case 0
  show ?case by simp
next
  case (Suc n)
  have "chunk_line (chunks, cur, 0) [] = (chunks, cur @ [[]], 0)"
    by (simp add: startswith_def)
  then show ?case using Suc [of "cur @ [[]]"]
    by (simp del: chunk_line.simps add: replicate_app_Cons_same)
qed

lemma join_replicate_empty: "join newline (replicate (Suc n) []) = replicate n CHR 0x0A"
  by (induction n) (auto simp: newline_def)

lemma chunks_of_newlines:
  "chunk_code_by_files (replicate n CHR 0x0A) = [replicate n CHR 0x0A]"
  using foldl_chunk_line_empty [of "[]" "[]" "Suc n"]
  by (simp add: chunk_code_by_files_def str_split_replicate join_replicate_empty
        del: foldl_Cons replicate.simps)

text \<open>
  C5 as stated fails: the counter of the loop adds up the lengths of the lines, not
  the separators between them.  A text of 12001 newlines has 12002 empty lines and
  is returned as one chunk of 12001 characters, beyond the limit of 12000 plus the
  length of a line, which is 0.
\<close>

theorem chunk_length_counterexample:
  "\<not> (\<forall>chunk \<in> set (chunk_code_by_files (replicate 12001 CHR 0x0A)).
        \<exists>line \<in> set (str_split CHR 0x0A (replicate 12001 CHR 0x0A)).
          length chunk \<le> chunk_size + length line)"
  by (simp add: chunks_of_newlines str_split_replicate chunk_size_def del: replicate.simps)

section \<open>Evaluating a run over one chunk\<close>

lemma chunks_code_text: "chunk_code_by_files code_text = [code_text]"
  by code_simp

lemma strip_code_text: "length (strip code_text) = 100"
  by code_simp

lemma analyze_code_text:
  "analyze_with_llm env cache code_text =
     (case process_chunk env
             \<lparr>analysis_cache = cache, combined_analysis = initial_analysis,
              response_bound = False\<rparr> (1, code_text) of
        (st, Some e) \<Rightarrow> (Inl e, analysis_cache st)
      | (st, None) \<Rightarrow> (clean_up env (combined_analysis st), analysis_cache st))"
  by (simp add: analyze_with_llm_def chunks_code_text enumerate_eq_zip
        split: prod.splits option.splits)

lemma process_code_text:
  "process_chunk env st (n, code_text) =
     (if analysis_cache st (py_hash env code_text) \<noteq> None then (st, None)
      else case classify_and_merge env st n code_text (py_hash env code_text) of
              (st', None) \<Rightarrow> (st', None)
            | (st', Some e) \<Rightarrow> except_clauses e st')"
  by (simp add: process_chunk_def strip_code_text Let_def)

lemma clean_up_initial:
  "clean_up env initial_analysis = Inr (map (\<lambda>feature. (feature, False, ''Not found'')) catalog)"
  by (simp add: initial_analysis_def catalog_def clean_details_def)

text \<open>
  C8: the claim is right and the code misses it.  \<^verbatim>\<open>''.split('\n')\<close> is the list of
  one empty line, which the loop appends to the current chunk; the final test sees a
  non-empty list and emits a chunk, so the empty text gives one empty chunk, not
  the empty sequence.
\<close>

theorem chunk_code_by_files_empty: "chunk_code_by_files [] = [[]]"
  by (simp add: chunk_code_by_files_def startswith_def)

text \<open>
  C6: the claim is right and the code misses it.  When the API call of the first
  classified chunk raises, the last handler reads the variable \<^verbatim>\<open>response\<close>, which
  is not assigned: the run raises UnboundLocalError and returns no map.
\<close>

theorem analyze_with_llm_raises:
  "fst (analyze_with_llm (env_of CallRaised) Map.empty code_text) = Inl UnboundLocalError"
  by (simp add: analyze_code_text process_code_text classify_and_merge_def env_of_def)

text \<open>
  C9: the claim is right and the code misses it.  \<^verbatim>\<open>analyze_project\<close> reads
  \<^verbatim>\<open>self.features\<close>, which the class never assigns, so every call raises: the
  exception of \<^verbatim>\<open>analyze_with_llm\<close> or AttributeError.
\<close>

theorem analyze_project_raises:
  "\<exists>e. fst (analyze_project env cache directory_content code_content) = Inl e"
  by (simp add: analyze_project_def self_features_def Let_def split: prod.splits sum.splits)

section \<open>The cache across two runs\<close>

lemma normalize_full: "normalize_keys full_analysis = full_analysis"
  by code_simp

lemma validated_full: "validated full_analysis"
  by code_simp

lemma merge_full: "merge_results full_analysis initial_analysis = (jwt_merged, None)"
  by code_simp

lemma clean_up_jwt: "clean_up (env_of outcome) jwt_merged = Inr jwt_found"
  by (simp add: jwt_merged_def jwt_found_def catalog_def clean_details_def env_of_def)

lemma classify_full:
  assumes "llm env n chunk = Loaded (PDict full_analysis)"
    and "combined_analysis st = initial_analysis"
  shows "classify_and_merge env st n chunk key =
           (st\<lparr>response_bound := True, combined_analysis := jwt_merged,
               analysis_cache := (analysis_cache st)(key \<mapsto> full_analysis)\<rparr>, None)"
  using assms validated_full
  by (simp add: classify_and_merge_def normalize_full merge_full validated_def)

lemma first_run:
  "analyze_with_llm (env_of (Loaded (PDict full_analysis))) Map.empty code_text =
     (Inr jwt_found, [100 \<mapsto> full_analysis])"
proof -
  let ?env = "env_of (Loaded (PDict full_analysis))"
  let ?st0 = "\<lparr>analysis_cache = Map.empty, combined_analysis = initial_analysis,
               response_bound = False\<rparr>"
  have key: "py_hash ?env code_text = 100"
    by (simp add: env_of_def code_text_def)
  have "classify_and_merge ?env ?st0 n code_text 100 =
          (?st0\<lparr>response_bound := True, combined_analysis := jwt_merged,
               analysis_cache := (analysis_cache ?st0)(100 \<mapsto> full_analysis)\<rparr>, None)" for n
    by (rule classify_full) (simp_all add: env_of_def)
  then show ?thesis
    by (simp add: analyze_code_text process_code_text key clean_up_jwt)
qed

lemma second_run:
  "analyze_with_llm (env_of (Loaded (PDict full_analysis))) [100 \<mapsto> full_analysis] code_text =
     (Inr nothing_found, [100 \<mapsto> full_analysis])"
proof -
  let ?env = "env_of (Loaded (PDict full_analysis))"
  have key: "py_hash ?env code_text = 100"
    by (simp add: env_of_def code_text_def)
  show ?thesis
    by (simp add: analyze_code_text process_code_text key clean_up_initial nothing_found_def)
qed

lemma uncached_run:
  "analyze_with_llm_uncached (env_of (Loaded (PDict full_analysis))) code_text = Inr jwt_found"
proof -
  let ?env = "env_of (Loaded (PDict full_analysis))"
  let ?st0 = "\<lparr>analysis_cache = Map.empty, combined_analysis = initial_analysis,
               response_bound = False\<rparr>"
  have key: "py_hash ?env code_text = 100"
    by (simp add: env_of_def code_text_def)
  have "classify_and_merge ?env ?st0 n code_text 100 =
          (?st0\<lparr>response_bound := True, combined_analysis := jwt_merged,
               analysis_cache := (analysis_cache ?st0)(100 \<mapsto> full_analysis)\<rparr>, None)" for n
    by (rule classify_full) (simp_all add: env_of_def)
  then show ?thesis
    by (simp add: analyze_with_llm_uncached_def chunks_code_text enumerate_eq_zip
          process_chunk_uncached_def process_code_text key clean_up_jwt)
qed

text \<open>
  C3: the claim is right and the code misses it.  On a cache hit the loop reads the
  cached analysis and goes on to the next chunk without merging it.  \<^verbatim>\<open>main.py\<close>
  analyzes every repository with one analyzer, so the cache outlives a run: a first
  run over a text finds the evidence, a second run of the same analyzer over the same
  text finds nothing, and the pipeline without the cache finds the evidence.
\<close>

theorem cache_hit_drops_evidence:
  "fst (analyze_with_llm (env_of (Loaded (PDict full_analysis))) Map.empty code_text) =
     Inr jwt_found \<and>
   fst (analyze_with_llm (env_of (Loaded (PDict full_analysis)))
          (snd (analyze_with_llm (env_of (Loaded (PDict full_analysis))) Map.empty code_text))
          code_text) = Inr nothing_found \<and>
   analyze_with_llm_uncached (env_of (Loaded (PDict full_analysis))) code_text = Inr jwt_found \<and>
   jwt_found \<noteq> nothing_found"
  by (simp add: first_run second_run uncached_run)
     (simp add: jwt_found_def nothing_found_def catalog_def)

section \<open>The merge\<close>

lemma merge_feature_present:
  "present (fst (merge_feature ca f v)) = (present v \<or> reports ca f)"
  by (simp add: merge_feature_def reports_def split: sum.splits)

lemma merge_feature_raises:
  "snd (merge_feature ca f v) \<noteq> None \<longleftrightarrow> raises ca f"
  by (simp add: merge_feature_def raises_def split: sum.splits)

lemma set_flags_False: "set_flags (map (\<lambda>f. False) fs) (flags c) = flags c" if "length fs = length c"
  using that
  by (induction c arbitrary: fs) (auto simp: set_flags_def flags_def length_Suc_conv)

lemma flags_merge_results:
  "flags (fst (merge_results ca c)) = set_flags (merged_upto ca (map fst c)) (flags c)"
proof (induction c)
  case Nil
  show ?case by (simp add: flags_def set_flags_def)
next
  case (Cons fv c)
  obtain f v where fv: "fv = (f, v)" by (cases fv) auto
  obtain v' r where m: "merge_feature ca f v = (v', r)" by (cases "merge_feature ca f v") auto
  have p: "present v' = (present v \<or> reports ca f)"
    using merge_feature_present [of ca f v] by (simp add: m)
  have r: "r \<noteq> None \<longleftrightarrow> raises ca f"
    using merge_feature_raises [of ca f v] by (simp add: m)
  show ?case
  proof (cases r)
    case None
    obtain c' r' where rest: "merge_results ca c = (c', r')"
      by (cases "merge_results ca c") auto
    from None r have "\<not> raises ca f" by simp
    with None Cons p show ?thesis
      by (simp add: fv m rest flags_def set_flags_def)
  next
    case (Some e)
    with r have "raises ca f" by simp
    with Some p set_flags_False [of "map fst c" c] show ?thesis
      by (simp add: fv m flags_def set_flags_def)
  qed
qed

lemma map_fst_merge_results: "map fst (fst (merge_results ca c)) = map fst c"
  by (induction c) (auto split: prod.splits option.splits)

lemma set_flags_commute:
  "set_flags m1 (set_flags m2 fl) = set_flags m2 (set_flags m1 fl)"
proof (induction fl arbitrary: m1 m2)
  case Nil
  show ?case by (simp add: set_flags_def)
next
  case (Cons a fl)
  then show ?case
    by (cases m1; cases m2; cases a) (auto simp: set_flags_def)
qed

lemma flags_merge_all:
  "flags (merge_all results c) =
     fold (\<lambda>ca. set_flags (merged_upto ca (map fst c))) results (flags c)"
proof (induction results arbitrary: c)
  case Nil
  show ?case by (simp add: merge_all_def)
next
  case (Cons ca results)
  have "merge_all (ca # results) c = merge_all results (fst (merge_results ca c))"
    by (simp add: merge_all_def)
  then show ?case
    using Cons [of "fst (merge_results ca c)"]
    by (simp add: flags_merge_results map_fst_merge_results)
qed

text \<open>
  C7: merging chunk results (validated or not) into a running total, the initial
  all-false one in particular, gives the same present flag for every feature whatever
  the order of the results, and the merge of a feature never resets a flag that is
  set.
\<close>

theorem merge_order_independent:
  assumes "mset results = mset results'"
  shows "flags (merge_all results running) = flags (merge_all results' running) \<and>
         (\<forall>ca feature v. present v \<longrightarrow> present (fst (merge_feature ca feature v)))"
proof
  have "fold (\<lambda>ca. set_flags (merged_upto ca (map fst running))) results =
        fold (\<lambda>ca. set_flags (merged_upto ca (map fst running))) results'"
    using assms by (intro fold_multiset_equiv) (auto simp: set_flags_commute)
  then show "flags (merge_all results running) = flags (merge_all results' running)"
    by (simp add: flags_merge_all)
  show "\<forall>ca feature v. present v \<longrightarrow> present (fst (merge_feature ca feature v))"
    by (simp add: merge_feature_present)
qed

theorem merge_order_independent_witness:
  "mset [full_analysis, required_only] = mset [required_only, full_analysis] \<and>
   flags (merge_all [full_analysis, required_only] initial_analysis) =
   flags (merge_all [required_only, full_analysis] initial_analysis) \<and>
   present (fst (merge_feature required_only ''storage'' \<lparr>present = True, details = []\<rparr>))"
proof -
  have perm: "mset [full_analysis, required_only] = mset [required_only, full_analysis]"
    by (simp add: add.commute)
  have "present \<lparr>present = True, details = []\<rparr>"
    by simp
  with merge_order_independent [OF perm, of initial_analysis] perm show ?thesis
    by blast
qed

section \<open>Chunks that fail\<close>

lemma except_clauses_bound: "response_bound st \<Longrightarrow> except_clauses e st = (st, None)"
  by (cases e) auto

lemma classify_fails_before_merge:
  assumes "fails_before_merge (llm env chunk_num chunk)"
  shows "\<exists>e. classify_and_merge env st chunk_num chunk key = (st\<lparr>response_bound := True\<rparr>, e)"
proof (cases "llm env chunk_num chunk")
  case CallRaised
  with assms show ?thesis by simp
next
  case NoContent
  then show ?thesis by (simp add: classify_and_merge_def)
next
  case Malformed
  then show ?thesis by (simp add: classify_and_merge_def)
next
  case (Loaded loaded)
  show ?thesis
  proof (cases loaded)
    case (PDict kvs)
    with Loaded assms have "\<not> validated (normalize_keys kvs)" by simp
    with Loaded PDict show ?thesis
      by (auto simp: classify_and_merge_def validated_def Let_def split: sum.splits)
  qed (use Loaded in \<open>simp_all add: classify_and_merge_def\<close>)
qed

text \<open>
  C2, amended: when the classification of a chunk fails before the merge begins, with
  a response at hand (the content is missing or is not JSON, the JSON is no object, a
  required feature is missing or is no object, or its \<^verbatim>\<open>present\<close> is no boolean), the
  run goes on to the next chunk, and the running total and the cache are what they
  were before the chunk.
\<close>

theorem failed_chunk_contributes_nothing:
  assumes "fails_before_merge (llm env chunk_num chunk)"
  shows "\<exists>st'. process_chunk env st (chunk_num, chunk) = (st', None) \<and>
           combined_analysis st' = combined_analysis st \<and>
           analysis_cache st' = analysis_cache st \<and>
           run_chunks env st ((chunk_num, chunk) # rest) = run_chunks env st' rest"
proof -
  let ?key = "py_hash env chunk"
  obtain r where c:
    "classify_and_merge env st chunk_num chunk ?key = (st\<lparr>response_bound := True\<rparr>, r)"
    using classify_fails_before_merge [OF assms] by blast
  have "except_clauses e (st\<lparr>response_bound := True\<rparr>) = (st\<lparr>response_bound := True\<rparr>, None)" for e
    by (simp add: except_clauses_bound)
  then have "process_chunk env st (chunk_num, chunk) = (st, None) \<or>
             process_chunk env st (chunk_num, chunk) = (st\<lparr>response_bound := True\<rparr>, None)"
    by (cases r) (simp_all add: process_chunk_def c Let_def)
  then show ?thesis
    by (elim disjE) (rule exI [of _ st], simp, rule exI [of _ "st\<lparr>response_bound := True\<rparr>"], simp)
qed

theorem failed_chunk_contributes_nothing_witness:
  "fails_before_merge (llm (env_of Malformed) 1 code_text) \<and>
   (\<exists>st'. process_chunk (env_of Malformed) fresh_state (1, code_text) = (st', None) \<and>
          combined_analysis st' = initial_analysis \<and>
          run_chunks (env_of Malformed) fresh_state [(1, code_text), (2, code_text)] =
          run_chunks (env_of Malformed) st' [(2, code_text)])"
proof -
  have fails: "fails_before_merge (llm (env_of Malformed) 1 code_text)"
    by (simp add: env_of_def)
  have "combined_analysis fresh_state = initial_analysis"
    by (simp add: fresh_state_def)
  with failed_chunk_contributes_nothing [OF fails, of fresh_state "[(2, code_text)]"] fails
  show ?thesis by auto
qed

lemma normalize_required_only: "normalize_keys required_only = required_only"
  by code_simp

lemma validated_required_only: "validated required_only"
  by code_simp

lemma merge_required_only:
  "merge_results required_only initial_analysis = (jwt_merged, Some KeyError)"
  by code_simp

lemma classify_required_only:
  assumes "llm env n chunk = Loaded (PDict required_only)"
    and "combined_analysis st = initial_analysis"
  shows "classify_and_merge env st n chunk key =
           (st\<lparr>response_bound := True, combined_analysis := jwt_merged\<rparr>, Some KeyError)"
  using assms validated_required_only
  by (simp add: classify_and_merge_def normalize_required_only merge_required_only validated_def)

lemma process_required_only:
  "process_chunk (env_of (Loaded (PDict required_only))) fresh_state (n, code_text) =
     (fresh_state\<lparr>response_bound := True, combined_analysis := jwt_merged\<rparr>, None)"
proof -
  let ?env = "env_of (Loaded (PDict required_only))"
  have "classify_and_merge ?env fresh_state n code_text (py_hash ?env code_text) =
          (fresh_state\<lparr>response_bound := True, combined_analysis := jwt_merged\<rparr>, Some KeyError)"
    by (rule classify_required_only) (simp_all add: env_of_def fresh_state_def)
  then show ?thesis
    by (simp add: process_code_text) (simp add: fresh_state_def)
qed

text \<open>
  C2 as stated fails for a chunk that fails during the merge.  A response that has the
  five required features and no \<^verbatim>\<open>realtime_events\<close> passes the validation; the merge
  loop merges \<^verbatim>\<open>authentication\<close>, raises KeyError at \<^verbatim>\<open>realtime_events\<close>, and the
  handler goes on to the next chunk with the evidence of the failed chunk in the
  running total.
\<close>

theorem failed_chunk_partial_merge:
  "snd (classify_and_merge (env_of (Loaded (PDict required_only))) fresh_state 1 code_text 100) =
     Some KeyError \<and>
   combined_analysis fresh_state = initial_analysis \<and>
   combined_analysis
     (fst (process_chunk (env_of (Loaded (PDict required_only))) fresh_state (1, code_text))) =
     jwt_merged \<and>
   jwt_merged \<noteq> initial_analysis"
proof -
  have "classify_and_merge (env_of (Loaded (PDict required_only))) fresh_state 1 code_text 100 =
          (fresh_state\<lparr>response_bound := True, combined_analysis := jwt_merged\<rparr>, Some KeyError)"
    by (rule classify_required_only) (simp_all add: env_of_def fresh_state_def)
  moreover have "jwt_merged \<noteq> initial_analysis"
    by (simp add: jwt_merged_def initial_analysis_def catalog_def)
  ultimately show ?thesis
    by (simp add: process_required_only) (simp add: fresh_state_def)
qed

section \<open>Truthy values of features that are not required\<close>

lemma merge_results_reaches:
  assumes "\<forall>g \<in> set (takeWhile (\<lambda>g. g \<noteq> feature) (map fst running)). \<not> raises ca g"
  shows "map_of (fst (merge_results ca running)) feature =
           map_option (\<lambda>v. fst (merge_feature ca feature v)) (map_of running feature)"
  using assms
proof (induction running)
  case Nil
  show ?case by simp
next
  case (Cons gv running)
  obtain g v where gv: "gv = (g, v)" by (cases gv) auto
  obtain v' r where m: "merge_feature ca g v = (v', r)" by (cases "merge_feature ca g v") auto
  obtain rest' r' where rest: "merge_results ca running = (rest', r')"
    by (cases "merge_results ca running") auto
  show ?case
  proof (cases "g = feature")
    case True
    with m have "merge_feature ca feature v = (v', r)" by simp
    with True show ?thesis by (cases r) (simp_all add: gv rest)
  next
    case False
    with Cons.prems have "\<not> raises ca g" by (simp add: gv)
    then have "r = None"
      using merge_feature_raises [of ca g v] by (simp add: m)
    moreover from Cons False have "map_of (fst (merge_results ca running)) feature =
           map_option (\<lambda>v. fst (merge_feature ca feature v)) (map_of running feature)"
      by (simp add: gv)
    ultimately show ?thesis using False by (simp add: gv m rest)
  qed
qed

lemma merge_results_cong:
  "(\<And>g v. merge_feature ca' g v = merge_feature ca g v) \<Longrightarrow>
     merge_results ca' running = merge_results ca running"
  by (induction running) auto

lemma lookup_update:
  "lookup (AList.update k x al) g = (if g = k then Inr x else lookup al g)"
  by (simp add: lookup_def update_conv')

lemma validate_format_update:
  "k \<notin> set fs \<Longrightarrow>
     validate_format (AList.update k x ca) fs valid = validate_format ca fs valid"
  by (induction fs arbitrary: valid) (auto simp: lookup_update split: sum.splits)

lemma validated_update:
  "k \<notin> set required_features \<Longrightarrow> validated (AList.update k x ca) = validated ca"
proof -
  assume k: "k \<notin> set required_features"
  then have "filter (\<lambda>f. map_of (AList.update k x ca) f = None) required_features =
             filter (\<lambda>f. map_of ca f = None) required_features"
    by (intro filter_cong) (auto simp: update_conv')
  with k show ?thesis
    by (simp add: validated_def missing_features_def validate_format_update)
qed

lemma merge_feature_present_true:
  assumes "lookup ca feature = Inr (PDict d)" "lookup d ''present'' = Inr p" "truthy p"
  shows "merge_feature (AList.update feature (PDict (AList.update ''present'' (PBool True) d)) ca)
           g v = merge_feature ca g v"
  using assms
  by (auto simp: merge_feature_def lookup_update split: sum.splits)

text \<open>
  C10, amended: the five required features alone have their \<^verbatim>\<open>present\<close> checked to
  be a boolean.  For a catalog feature that is not required, a chunk result that passes
  the validation, at no earlier feature of which the merge raises, and whose entry
  for the feature has a truthy \<^verbatim>\<open>present\<close> and a \<^verbatim>\<open>details\<close>, makes the merge set
  the flag of the feature and append the details; the result with \<^verbatim>\<open>present\<close>
  replaced by the boolean true passes the validation too and merges to the same
  running total.
\<close>

theorem truthy_present_merged:
  assumes "validated ca"
    and "feature \<in> set catalog" "feature \<notin> set required_features"
    and "lookup ca feature = Inr (PDict d)"
    and "lookup d ''present'' = Inr p" "truthy p"
    and "lookup d ''details'' = Inr s"
    and "\<forall>g \<in> set (takeWhile (\<lambda>g. g \<noteq> feature) catalog). \<not> raises ca g"
    and "map fst running = catalog"
  shows "(\<exists>v v'. map_of running feature = Some v \<and>
                 map_of (fst (merge_results ca running)) feature = Some v' \<and>
                 present v' \<and> details v' = details v @ [s]) \<and>
         validated (with_present_true ca feature) \<and>
         merge_results (with_present_true ca feature) running = merge_results ca running"
proof -
  from assms(2,9) obtain v where v: "map_of running feature = Some v"
    by (metis map_of_eq_None_iff not_Some_eq set_map)
  have m: "merge_feature ca feature v = (v\<lparr>present := True, details := details v @ [s]\<rparr>, None)"
    using assms(4-7) by (simp add: merge_feature_def)
  have "map_of (fst (merge_results ca running)) feature =
          map_option (\<lambda>v. fst (merge_feature ca feature v)) (map_of running feature)"
    using assms(8,9) by (intro merge_results_reaches) simp
  then have first: "\<exists>v v'. map_of running feature = Some v \<and>
                 map_of (fst (merge_results ca running)) feature = Some v' \<and>
                 present v' \<and> details v' = details v @ [s]"
    by (simp add: v m)
  have w: "with_present_true ca feature =
             AList.update feature (PDict (AList.update ''present'' (PBool True) d)) ca"
    using assms(4) by (simp add: with_present_true_def lookup_def split: option.splits)
  have second: "validated (with_present_true ca feature)"
    using assms(1,3) by (simp add: w validated_update)
  have third: "merge_results (with_present_true ca feature) running = merge_results ca running"
    unfolding w using assms(4-6) by (intro merge_results_cong merge_feature_present_true)
  from first second third show ?thesis by blast
qed

theorem truthy_present_merged_witness:
  "validated truthy_full \<and>
   truthy (PStr ''yes'') \<and>
   (\<exists>v'. map_of (fst (merge_results truthy_full initial_analysis)) ''monolith'' = Some v' \<and>
         present v' \<and> details v' = [PStr ''one app'']) \<and>
   merge_results (with_present_true truthy_full ''monolith'') initial_analysis =
     merge_results truthy_full initial_analysis"
proof -
  have valid: "validated truthy_full"
    by code_simp
  have cat: "''monolith'' \<in> set catalog" "''monolith'' \<notin> set required_features"
    by (simp_all add: catalog_def required_features_def)
  have entry: "lookup truthy_full ''monolith'' =
                 Inr (PDict [(''present'', PStr ''yes''), (''details'', PStr ''one app'')])"
    by code_simp
  have fields:
    "lookup [(''present'', PStr ''yes''), (''details'', PStr ''one app'')] ''present'' = Inr (PStr ''yes'')"
    "lookup [(''present'', PStr ''yes''), (''details'', PStr ''one app'')] ''details'' = Inr (PStr ''one app'')"
    by (simp_all add: lookup_def)
  have yes: "truthy (PStr ''yes'')"
    by simp
  have reach: "\<forall>g \<in> set (takeWhile (\<lambda>g. g \<noteq> ''monolith'') catalog). \<not> raises truthy_full g"
    by code_simp
  have keys: "map fst initial_analysis = catalog"
    by (simp add: initial_analysis_def comp_def)
  have start: "map_of initial_analysis ''monolith'' = Some \<lparr>present = False, details = []\<rparr>"
    by code_simp
  from truthy_present_merged [OF valid cat entry fields(1) yes fields(2) reach keys] start valid
  show ?thesis by auto
qed

text \<open>
  C10 as stated fails when the merge does not reach the feature.  A response with the
  five required features, no \<^verbatim>\<open>realtime_events\<close> and a \<^verbatim>\<open>monolith\<close> whose
  \<^verbatim>\<open>present\<close> is the string \<^verbatim>\<open>yes\<close> passes the validation; the merge raises
  KeyError at \<^verbatim>\<open>realtime_events\<close>, before \<^verbatim>\<open>monolith\<close>, and the running total is
  unchanged.
\<close>

theorem truthy_present_not_merged:
  "normalize_keys truthy_monolith = truthy_monolith \<and>
   validated truthy_monolith \<and>
   lookup truthy_monolith ''monolith'' =
     Inr (PDict [(''present'', PStr ''yes''), (''details'', PStr ''one app'')]) \<and>
   truthy (PStr ''yes'') \<and>
   merge_results truthy_monolith initial_analysis = (initial_analysis, Some KeyError)"
  by code_simp

section \<open>The returned map\<close>

lemma except_clauses_state: "fst (except_clauses e st) = st"
  by (cases e) auto

lemma classify_validated:
  assumes "llm env n chunk = Loaded (PDict kvs)" "validated (normalize_keys kvs)"
  shows "classify_and_merge env st n chunk key =
     (case merge_results (normalize_keys kvs) (combined_analysis st) of
        (merged, Some e) \<Rightarrow> (st\<lparr>response_bound := True, combined_analysis := merged\<rparr>, Some e)
      | (merged, None) \<Rightarrow>
          (st\<lparr>response_bound := True, combined_analysis := merged,
              analysis_cache := (analysis_cache st)(key \<mapsto> normalize_keys kvs)\<rparr>, None))"
  using assms
  by (simp add: classify_and_merge_def validated_def Let_def split: prod.splits option.splits)

lemma classify_call_raised:
  "llm env n chunk = CallRaised \<Longrightarrow> classify_and_merge env st n chunk key = (st, Some APIError)"
  by (simp add: classify_and_merge_def)

lemma merge_feature_details:
  assumes "\<not> raises ca f"
  shows "details (fst (merge_feature ca f v)) =
           details v @ (if reports ca f then [the (evidence ca f)] else []) \<and>
         (reports ca f \<longrightarrow> evidence ca f \<noteq> None)"
  using assms
  by (auto simp: merge_feature_def raises_def reports_def evidence_def split: sum.splits)

lemma merge_results_complete:
  assumes "\<forall>f \<in> set (map fst running). \<not> raises ca f"
  shows "merge_results ca running =
           (map (\<lambda>(f, v). (f, fst (merge_feature ca f v))) running, None)"
  using assms
proof (induction running)
  case Nil
  show ?case by simp
next
  case (Cons fv running)
  obtain f v where fv: "fv = (f, v)" by (cases fv) auto
  obtain v' r where m: "merge_feature ca f v = (v', r)" by (cases "merge_feature ca f v") auto
  from Cons.prems have "\<not> raises ca f" by (simp add: fv)
  then have "r = None"
    using merge_feature_raises [of ca f v] by (simp add: m)
  moreover from Cons have "merge_results ca running =
           (map (\<lambda>(f, v). (f, fst (merge_feature ca f v))) running, None)"
    by simp
  ultimately show ?case by (simp add: fv m)
qed

lemma contributed_same: "contributed cache cache = {}"
  by (auto simp: contributed_def)

lemma contributed_update:
  assumes "cache key = None" "cache' key = None"
  shows "contributed cache (cache'(key \<mapsto> ca)) = insert ca (contributed cache cache')"
proof (rule set_eqI)
  fix x
  have "(\<exists>k. cache k = None \<and> (cache'(key \<mapsto> ca)) k = Some x) \<longleftrightarrow>
        x = ca \<or> (\<exists>k. cache k = None \<and> cache' k = Some x)"
  proof
    assume "\<exists>k. cache k = None \<and> (cache'(key \<mapsto> ca)) k = Some x"
    then obtain k where k: "cache k = None" "(cache'(key \<mapsto> ca)) k = Some x"
      by blast
    then show "x = ca \<or> (\<exists>k. cache k = None \<and> cache' k = Some x)"
      by (cases "k = key") auto
  next
    assume "x = ca \<or> (\<exists>k. cache k = None \<and> cache' k = Some x)"
    then show "\<exists>k. cache k = None \<and> (cache'(key \<mapsto> ca)) k = Some x"
    proof
      assume "x = ca"
      with assms(1) show ?thesis by (intro exI [of _ key]) simp
    next
      assume "\<exists>k. cache k = None \<and> cache' k = Some x"
      then obtain k where k: "cache k = None" "cache' k = Some x" by blast
      with assms(2) have "k \<noteq> key" by auto
      with k show ?thesis by (intro exI [of _ k]) simp
    qed
  qed
  then show "x \<in> contributed cache (cache'(key \<mapsto> ca)) \<longleftrightarrow>
             x \<in> insert ca (contributed cache cache')"
    by (simp add: contributed_def)
qed

lemma total_inv_fields:
  "combined_analysis st' = combined_analysis st \<Longrightarrow> analysis_cache st' = analysis_cache st \<Longrightarrow>
     total_inv cache st' = total_inv cache st"
  by (simp add: total_inv_def)

lemma total_inv_merge:
  assumes inv: "total_inv cache st"
    and miss: "analysis_cache st key = None"
    and ok: "mergeable ca"
    and merged: "merge_results ca (combined_analysis st) = (merged, r)"
    and st': "combined_analysis st' = merged" "analysis_cache st' = (analysis_cache st)(key \<mapsto> ca)"
  shows "total_inv cache st' \<and> r = None"
proof -
  from inv have keys: "map fst (combined_analysis st) = catalog"
    and old: "\<forall>k. cache k \<noteq> None \<longrightarrow> analysis_cache st k = cache k"
    and tot: "\<forall>(feature, v) \<in> set (combined_analysis st).
         (present v \<longleftrightarrow>
            (\<exists>ca \<in> contributed cache (analysis_cache st). reports ca feature)) \<and>
         set (details v) =
            {d. \<exists>ca \<in> contributed cache (analysis_cache st).
                  reports ca feature \<and> evidence ca feature = Some d}"
    by (simp_all add: total_inv_def)
  from ok have nr: "\<forall>f \<in> set catalog. \<not> raises ca f"
    by (simp add: mergeable_def list_all_iff)
  with keys have all: "merge_results ca (combined_analysis st) =
      (map (\<lambda>(f, v). (f, fst (merge_feature ca f v))) (combined_analysis st), None)"
    by (intro merge_results_complete) simp
  with merged have m: "merged = map (\<lambda>(f, v). (f, fst (merge_feature ca f v))) (combined_analysis st)"
    and r: "r = None"
    by simp_all
  from miss old have "cache key = None"
    by metis
  then have contr: "contributed cache (analysis_cache st') =
                      insert ca (contributed cache (analysis_cache st))"
    using miss by (simp add: st'(2) contributed_update)
  have k': "map fst (combined_analysis st') = catalog"
    using keys by (simp add: st'(1) m comp_def case_prod_unfold)
  have o': "\<forall>k. cache k \<noteq> None \<longrightarrow> analysis_cache st' k = cache k"
    using old \<open>cache key = None\<close> by (auto simp: st'(2))
  have t': "(present v' \<longleftrightarrow> (\<exists>ca \<in> contributed cache (analysis_cache st'). reports ca f)) \<and>
         set (details v') =
            {d. \<exists>ca \<in> contributed cache (analysis_cache st').
                  reports ca f \<and> evidence ca f = Some d}"
    if "(f, v') \<in> set (combined_analysis st')" for f v'
  proof -
    from that obtain v where v: "(f, v) \<in> set (combined_analysis st)"
      and v': "v' = fst (merge_feature ca f v)"
      by (auto simp: st'(1) m)
    from v keys have "f \<in> set catalog"
      by (metis fst_conv image_eqI set_map)
    with nr have nrf: "\<not> raises ca f" by simp
    from tot v have "case (f, v) of (feature, v) \<Rightarrow>
         (present v \<longleftrightarrow>
            (\<exists>ca \<in> contributed cache (analysis_cache st). reports ca feature)) \<and>
         set (details v) =
            {d. \<exists>ca \<in> contributed cache (analysis_cache st).
                  reports ca feature \<and> evidence ca feature = Some d}"
      by (rule bspec)
    then have p: "present v \<longleftrightarrow>
            (\<exists>ca \<in> contributed cache (analysis_cache st). reports ca f)"
      and d: "set (details v) =
            {d. \<exists>ca \<in> contributed cache (analysis_cache st).
                  reports ca f \<and> evidence ca f = Some d}"
      by simp_all
    have "present v' \<longleftrightarrow> (\<exists>ca \<in> contributed cache (analysis_cache st'). reports ca f)"
      using p by (auto simp: v' merge_feature_present contr)
    moreover have "set (details v') =
            {d. \<exists>ca \<in> contributed cache (analysis_cache st').
                  reports ca f \<and> evidence ca f = Some d}"
    proof -
      have "set (details v') = set (details v) \<union> {d. reports ca f \<and> evidence ca f = Some d}"
        using merge_feature_details [OF nrf, of v] by (auto simp: v')
      also have "\<dots> = {d. \<exists>ca \<in> contributed cache (analysis_cache st').
                  reports ca f \<and> evidence ca f = Some d}"
        unfolding d contr by blast
      finally show ?thesis .
    qed
    ultimately show ?thesis by simp
  qed
  from k' o' t' r show ?thesis
    by (auto simp: total_inv_def)
qed

lemma outcome_cases:
  "outcome = CallRaised \<or> fails_before_merge outcome \<or>
   (\<exists>kvs. outcome = Loaded (PDict kvs) \<and> validated (normalize_keys kvs))"
proof (cases outcome)
  case (Loaded loaded)
  then show ?thesis by (cases loaded) auto
qed auto

lemma process_chunk_skip:
  "analysis_cache st (py_hash env chunk) \<noteq> None \<or> length (strip chunk) < 100 \<Longrightarrow>
     process_chunk env st (n, chunk) = (st, None)"
  unfolding process_chunk_def Let_def by auto

lemma process_chunk_classify:
  assumes "analysis_cache st (py_hash env chunk) = None" "\<not> length (strip chunk) < 100"
  shows "fst (process_chunk env st (n, chunk)) =
           fst (classify_and_merge env st n chunk (py_hash env chunk))"
proof -
  obtain st1 r1 where c: "classify_and_merge env st n chunk (py_hash env chunk) = (st1, r1)"
    by (cases "classify_and_merge env st n chunk (py_hash env chunk)") auto
  have p: "process_chunk env st (n, chunk) =
             (case r1 of None \<Rightarrow> (st1, None) | Some e \<Rightarrow> except_clauses e st1)"
    unfolding process_chunk_def Let_def using assms by (simp add: c)
  show ?thesis
    unfolding p c by (cases r1) (simp_all add: except_clauses_state)
qed

lemma total_inv_classify:
  assumes inv: "total_inv cache st"
    and complete: "\<And>n chunk kvs. llm env n chunk = Loaded (PDict kvs) \<Longrightarrow>
          validated (normalize_keys kvs) \<Longrightarrow> mergeable (normalize_keys kvs)"
    and miss: "analysis_cache st key = None"
  shows "total_inv cache (fst (classify_and_merge env st n chunk key))"
proof -
  consider (raised) "llm env n chunk = CallRaised"
    | (fails) "fails_before_merge (llm env n chunk)"
    | (merges) kvs where "llm env n chunk = Loaded (PDict kvs)" "validated (normalize_keys kvs)"
    using outcome_cases [of "llm env n chunk"] by blast
  then show ?thesis
  proof cases
    case raised
    then have "classify_and_merge env st n chunk key = (st, Some APIError)"
      by (rule classify_call_raised)
    with inv show ?thesis by simp
  next
    case fails
    then obtain e where
      "classify_and_merge env st n chunk key = (st\<lparr>response_bound := True\<rparr>, e)"
      using classify_fails_before_merge by blast
    moreover have "total_inv cache (st\<lparr>response_bound := True\<rparr>) = total_inv cache st"
      by (rule total_inv_fields) simp_all
    ultimately show ?thesis using inv by simp
  next
    case merges
    let ?ca = "normalize_keys kvs"
    obtain merged rm where m: "merge_results ?ca (combined_analysis st) = (merged, rm)"
      by (cases "merge_results ?ca (combined_analysis st)") auto
    have ok: "mergeable ?ca"
      using merges by (rule complete)
    let ?st2 = "st\<lparr>response_bound := True, combined_analysis := merged,
                  analysis_cache := (analysis_cache st)(key \<mapsto> ?ca)\<rparr>"
    have both: "total_inv cache ?st2 \<and> rm = None"
      by (rule total_inv_merge [OF inv miss ok m]) simp_all
    then have "rm = None" ..
    then have "classify_and_merge env st n chunk key = (?st2, None)"
      unfolding classify_validated [OF merges] m by simp
    with both show ?thesis by simp
  qed
qed

lemma total_inv_process_chunk:
  assumes inv: "total_inv cache st"
    and complete: "\<And>n chunk kvs. llm env n chunk = Loaded (PDict kvs) \<Longrightarrow>
          validated (normalize_keys kvs) \<Longrightarrow> mergeable (normalize_keys kvs)"
    and step: "process_chunk env st numbered = (st', r)"
  shows "total_inv cache st'"
proof -
  obtain n chunk where numbered: "numbered = (n, chunk)" by (cases numbered) auto
  show ?thesis
  proof (cases "analysis_cache st (py_hash env chunk) \<noteq> None \<or> length (strip chunk) < 100")
    case True
    then have "process_chunk env st (n, chunk) = (st, None)"
      by (rule process_chunk_skip)
    with step numbered have "st' = st" by simp
    with inv show ?thesis by simp
  next
    case False
    then have miss: "analysis_cache st (py_hash env chunk) = None"
      and big: "\<not> length (strip chunk) < 100"
      by simp_all
    have "fst (process_chunk env st (n, chunk)) =
           fst (classify_and_merge env st n chunk (py_hash env chunk))"
      using miss big by (rule process_chunk_classify)
    with step numbered have "st' = fst (classify_and_merge env st n chunk (py_hash env chunk))"
      by simp
    then show ?thesis
      using total_inv_classify [OF inv complete miss] by simp
  qed
qed

lemma total_inv_run_chunks:
  assumes complete: "\<And>n chunk kvs. llm env n chunk = Loaded (PDict kvs) \<Longrightarrow>
          validated (normalize_keys kvs) \<Longrightarrow> mergeable (normalize_keys kvs)"
  shows "total_inv cache st \<Longrightarrow> run_chunks env st chunks = (st', r) \<Longrightarrow> total_inv cache st'"
proof (induction chunks arbitrary: st)
  case Nil
  then show ?case by simp
next
  case (Cons numbered chunks)
  obtain st1 r1 where p: "process_chunk env st numbered = (st1, r1)"
    by (cases "process_chunk env st numbered") auto
  have inv1: "total_inv cache st1"
    using Cons.prems(1) complete p by (rule total_inv_process_chunk)
  show ?case
  proof (cases r1)
    case None
    with Cons.prems(2) p have "run_chunks env st1 chunks = (st', r)" by simp
    with inv1 show ?thesis by (rule Cons.IH)
  next
    case (Some e)
    with Cons.prems(2) p have "st' = st1" by simp
    with inv1 show ?thesis by simp
  qed
qed

lemma strings_of_Some: "strings_of ds = Some ss \<Longrightarrow> ds = map PStr ss"
  by (induction ds arbitrary: ss rule: strings_of.induct) auto

lemma clean_details_Inr:
  assumes "clean_details env ds = Inr d"
    and "\<And>xs. distinct (set_order env xs) \<and> set (set_order env xs) = set xs"
  shows "\<exists>ys. distinct ys \<and> set ys = {s. PStr s \<in> set ds} \<and>
              d = (if ys = [] then ''Not found'' else join newline ys)"
proof (cases "ds = []")
  case True
  with assms(1) have "d = ''Not found''" by (simp add: clean_details_def)
  with True show ?thesis by (intro exI [of _ "[]"]) simp
next
  case False
  with assms(1) obtain ss where ss: "strings_of ds = Some ss"
    and d: "d = join newline (set_order env ss)"
    by (auto simp: clean_details_def split: option.splits)
  from ss have ds: "ds = map PStr ss" by (rule strings_of_Some)
  with False have "ss \<noteq> []" by auto
  then have "set (set_order env ss) \<noteq> {}" using assms(2) by simp
  then have "set_order env ss \<noteq> []" by auto
  moreover have "set (set_order env ss) = {s. PStr s \<in> set ds}"
    using assms(2) by (auto simp: ds)
  ultimately show ?thesis
    using assms(2) d by (intro exI [of _ "set_order env ss"]) simp
qed

lemma clean_up_Inr:
  "clean_up env running = Inr result \<Longrightarrow>
     map fst result = map fst running \<and>
     (\<forall>(feature, p, d) \<in> set result.
        \<exists>v. (feature, v) \<in> set running \<and> p = present v \<and>
            clean_details env (details v) = Inr d)"
proof (induction running arbitrary: result)
  case Nil
  then show ?case by simp
next
  case (Cons fv running)
  obtain f v where fv: "fv = (f, v)" by (cases fv) auto
  from Cons.prems obtain d rest where d: "clean_details env (details v) = Inr d"
    and rest: "clean_up env running = Inr rest"
    and result: "result = (f, present v, d) # rest"
    by (auto simp: fv split: sum.splits)
  from Cons.IH [OF rest] d show ?case
    by (auto simp: result fv)
qed

text \<open>
  C1, amended: for every run that returns, in which every chunk result that passes
  the validation can be merged without an exception, the returned map has the
  features of the catalog; a feature is present if and only if a chunk result the run
  has merged completely reports it, and its details are the strings those chunk
  results give as evidence, each once, joined by newlines in the order the set
  yields them, or \<^verbatim>\<open>Not found\<close> when there are none.
\<close>

theorem returned_map_reflects_contributions:
  assumes run: "analyze_with_llm env cache code_content = (Inr result, cache')"
    and complete: "\<And>n chunk kvs. llm env n chunk = Loaded (PDict kvs) \<Longrightarrow>
          validated (normalize_keys kvs) \<Longrightarrow> mergeable (normalize_keys kvs)"
    and order: "\<And>xs. distinct (set_order env xs) \<and> set (set_order env xs) = set xs"
  shows "map fst result = catalog \<and>
         (\<forall>(feature, p, d) \<in> set result.
            (p \<longleftrightarrow> (\<exists>ca \<in> contributed cache cache'. reports ca feature)) \<and>
            (\<exists>ys. distinct ys \<and>
                  set ys = {s. \<exists>ca \<in> contributed cache cache'.
                               reports ca feature \<and> evidence ca feature = Some (PStr s)} \<and>
                  d = (if ys = [] then ''Not found'' else join newline ys)))"
proof -
  let ?st0 = "\<lparr>analysis_cache = cache, combined_analysis = initial_analysis,
               response_bound = False\<rparr>"
  obtain st r where loop:
    "run_chunks env ?st0 (enumerate 1 (chunk_code_by_files code_content)) = (st, r)"
    by (cases "run_chunks env ?st0 (enumerate 1 (chunk_code_by_files code_content))") auto
  from run loop have clean: "clean_up env (combined_analysis st) = Inr result"
    and cache': "cache' = analysis_cache st"
    by (auto simp: analyze_with_llm_def Let_def split: option.splits)
  have inv0: "total_inv cache ?st0"
    by (simp add: total_inv_def contributed_same initial_analysis_def comp_def)
  have inv: "total_inv cache st"
    by (rule total_inv_run_chunks [where env = env, OF complete inv0 loop])
  then have keys: "map fst (combined_analysis st) = catalog"
    and tot: "\<forall>(feature, v) \<in> set (combined_analysis st).
         (present v \<longleftrightarrow> (\<exists>ca \<in> contributed cache cache'. reports ca feature)) \<and>
         set (details v) =
            {d. \<exists>ca \<in> contributed cache cache'.
                  reports ca feature \<and> evidence ca feature = Some d}"
    by (simp_all add: total_inv_def cache')
  from clean_up_Inr [OF clean] have k: "map fst result = map fst (combined_analysis st)"
    and each: "\<forall>(feature, p, d) \<in> set result.
        \<exists>v. (feature, v) \<in> set (combined_analysis st) \<and> p = present v \<and>
            clean_details env (details v) = Inr d"
    by simp_all
  have per: "(p \<longleftrightarrow> (\<exists>ca \<in> contributed cache cache'. reports ca feature)) \<and>
        (\<exists>ys. distinct ys \<and>
              set ys = {s. \<exists>ca \<in> contributed cache cache'.
                           reports ca feature \<and> evidence ca feature = Some (PStr s)} \<and>
              d = (if ys = [] then ''Not found'' else join newline ys))"
    if "(feature, p, d) \<in> set result" for feature p d
  proof -
    from each that have "case (feature, p, d) of (feature, p, d) \<Rightarrow>
        \<exists>v. (feature, v) \<in> set (combined_analysis st) \<and> p = present v \<and>
            clean_details env (details v) = Inr d"
      by (rule bspec)
    then obtain v where v: "(feature, v) \<in> set (combined_analysis st)"
      and p: "p = present v" and d: "clean_details env (details v) = Inr d"
      by auto
    from tot v have "case (feature, v) of (feature, v) \<Rightarrow>
         (present v \<longleftrightarrow> (\<exists>ca \<in> contributed cache cache'. reports ca feature)) \<and>
         set (details v) =
            {d. \<exists>ca \<in> contributed cache cache'.
                  reports ca feature \<and> evidence ca feature = Some d}"
      by (rule bspec)
    then have pv: "present v \<longleftrightarrow> (\<exists>ca \<in> contributed cache cache'. reports ca feature)"
      and dv: "set (details v) =
            {d. \<exists>ca \<in> contributed cache cache'.
                  reports ca feature \<and> evidence ca feature = Some d}"
      by simp_all
    from clean_details_Inr [OF d order] obtain ys where ys: "distinct ys"
      "set ys = {s. PStr s \<in> set (details v)}"
      "d = (if ys = [] then ''Not found'' else join newline ys)"
      by blast
    have "set ys = {s. \<exists>ca \<in> contributed cache cache'.
                           reports ca feature \<and> evidence ca feature = Some (PStr s)}"
      unfolding ys(2) dv by blast
    with ys(1,3) pv p show ?thesis by blast
  qed
  have all: "\<forall>(feature, p, d) \<in> set result.
            (p \<longleftrightarrow> (\<exists>ca \<in> contributed cache cache'. reports ca feature)) \<and>
            (\<exists>ys. distinct ys \<and>
                  set ys = {s. \<exists>ca \<in> contributed cache cache'.
                               reports ca feature \<and> evidence ca feature = Some (PStr s)} \<and>
                  d = (if ys = [] then ''Not found'' else join newline ys))"
  proof (rule ballI)
    fix x
    assume x: "x \<in> set result"
    obtain feature p d where "x = (feature, p, d)" by (cases x) auto
    with x per [of feature p d] show "case x of (feature, p, d) \<Rightarrow>
            (p \<longleftrightarrow> (\<exists>ca \<in> contributed cache cache'. reports ca feature)) \<and>
            (\<exists>ys. distinct ys \<and>
                  set ys = {s. \<exists>ca \<in> contributed cache cache'.
                               reports ca feature \<and> evidence ca feature = Some (PStr s)} \<and>
                  d = (if ys = [] then ''Not found'' else join newline ys))"
      by simp
  qed
  have "map fst result = catalog"
    using k keys by simp
  then show ?thesis
    using all by (rule conjI)
qed

lemma mergeable_full: "mergeable full_analysis"
  by code_simp

theorem returned_map_reflects_contributions_witness:
  "analyze_with_llm (env_of (Loaded (PDict full_analysis))) Map.empty code_text =
     (Inr jwt_found, [100 \<mapsto> full_analysis]) \<and>
   map fst jwt_found = catalog \<and>
   (\<exists>ca \<in> contributed Map.empty [100 \<mapsto> full_analysis]. reports ca ''authentication'') \<and>
   \<not> (\<exists>ca \<in> contributed Map.empty [100 \<mapsto> full_analysis]. reports ca ''storage'')"
proof -
  let ?env = "env_of (Loaded (PDict full_analysis))"
  have complete: "mergeable (normalize_keys kvs)"
    if "llm ?env n chunk = Loaded (PDict kvs)" for n chunk kvs
    using that mergeable_full by (simp add: env_of_def normalize_full)
  have order: "distinct (set_order ?env xs) \<and> set (set_order ?env xs) = set xs" for xs
    by (simp add: env_of_def)
  have auth: "(''authentication'', True, ''JWT found'') \<in> set jwt_found"
    and stor: "(''storage'', False, ''Not found'') \<in> set jwt_found"
    by (simp_all add: jwt_found_def catalog_def)
  from returned_map_reflects_contributions [OF first_run complete order]
  have keys: "map fst jwt_found = catalog"
    and each: "\<forall>(feature, p, d) \<in> set jwt_found.
            (p \<longleftrightarrow> (\<exists>ca \<in> contributed Map.empty [100 \<mapsto> full_analysis]. reports ca feature)) \<and>
            (\<exists>ys. distinct ys \<and>
                  set ys = {s. \<exists>ca \<in> contributed Map.empty [100 \<mapsto> full_analysis].
                               reports ca feature \<and> evidence ca feature = Some (PStr s)} \<and>
                  d = (if ys = [] then ''Not found'' else join newline ys))"
    by simp_all
  from each auth have "\<exists>ca \<in> contributed Map.empty [100 \<mapsto> full_analysis]. reports ca ''authentication''"
    by fast
  moreover from each stor
  have "\<not> (\<exists>ca \<in> contributed Map.empty [100 \<mapsto> full_analysis]. reports ca ''storage'')"
    by fast
  ultimately show ?thesis
    using keys first_run by simp
qed

text \<open>
  C1 as stated fails for a chunk that fails during the merge.  The only chunk of the
  run gets a response with the five required features and no \<^verbatim>\<open>realtime_events\<close>:
  the merge raises KeyError after \<^verbatim>\<open>authentication\<close>, the chunk is not cached and has
  not contributed successfully, and the returned map reports \<^verbatim>\<open>authentication\<close>
  present with the evidence of that chunk.
\<close>

theorem returned_map_partial_merge:
  "analyze_with_llm (env_of (Loaded (PDict required_only))) Map.empty code_text =
     (Inr jwt_found, Map.empty) \<and>
   (''authentication'', True, ''JWT found'') \<in> set jwt_found \<and>
   contributed Map.empty Map.empty = {}"
proof -
  have "(''authentication'', True, ''JWT found'') \<in> set jwt_found"
    by (simp add: jwt_found_def)
  moreover have "analyze_with_llm (env_of (Loaded (PDict required_only))) Map.empty code_text =
     (Inr jwt_found, Map.empty)"
    using process_required_only [of 1]
    by (simp add: analyze_code_text fresh_state_def clean_up_jwt)
  ultimately show ?thesis
    by (simp add: contributed_same)
qed

end
